theory Spec2Isabelle
  imports Main "HOL-Library.Char_ord" "HOL-Library.List_Lexorder" "HOL-Library.AList"
    "HOL-Library.Multiset"
begin

section \<open>Python values used by the ATIS SQL table context\<close>

text \<open>
  Python strings are modelled as \<open>string\<close>; \<open>HOL-Library.Char_ord\<close> and
  \<open>HOL-Library.List_Lexorder\<close> order them as Python does: character by character on
  the code points, a proper prefix being smaller.

  A \<open>Dict[str, ...]\<close> keeps its insertion order, which the program relies on when it
  iterates over \<open>items()\<close>: it is an association list whose keys are distinct.
  \<open>d[k] = v\<close> is \<open>AList.update k v d\<close> (an existing key keeps its position, a new key
  goes to the end) and a lookup is \<open>map_of d k\<close>.
\<close>

type_synonym 'v dict = "(string \<times> 'v) list"

text \<open>The truth value of an optional dictionary: \<open>None\<close> and \<open>{}\<close> are false.\<close>

definition truthy :: "'a list option \<Rightarrow> bool" where
  "truthy d = (case d of None \<Rightarrow> False | Some kvs \<Rightarrow> kvs \<noteq> [])"

text \<open>\<open>sorted(xs, reverse=True)\<close> on a list of strings. Equal strings are
  indistinguishable, so the reversed ascending sort is the same list.\<close>

definition sorted_reverse :: "string list \<Rightarrow> string list" where
  "sorted_reverse xs = rev (sort xs)"

text \<open>\<open>s.endswith(suf)\<close>.\<close>

definition endswith :: "string \<Rightarrow> string \<Rightarrow> bool" where
  "endswith s suf = (length suf \<le> length s \<and> drop (length s - length suf) s = suf)"

text \<open>\<open>sep.join(xs)\<close>.\<close>

fun join :: "string \<Rightarrow> string list \<Rightarrow> string" where
  "join sep [] = []"
| "join sep [x] = x"
| "join sep (x # y # ys) = x @ sep @ join sep (y # ys)"

text \<open>
  The values a one-column \<open>SELECT\<close> of sqlite3 yields, and Python's \<open>str\<close> of them.
  (\<open>REAL\<close> and \<open>BLOB\<close> columns are left out: their \<open>str\<close> is the floating point and
  bytes formatting of Python.)
\<close>

datatype sql_value = Null | Integer int | Text string

fun str_nat :: "nat \<Rightarrow> string" where
  "str_nat n = (if n < 10 then [char_of (48 + n)]
                else str_nat (n div 10) @ [char_of (48 + n mod 10)])"

declare str_nat.simps [simp del]

fun str :: "sql_value \<Rightarrow> string" where
  "str Null = ''None''"
| "str (Integer i) = (if i < 0 then ''-'' @ str_nat (nat (- i)) else str_nat (nat i))"
| "str (Text s) = s"

section \<open>The base grammar and the keyword list\<close>

definition GRAMMAR_DICTIONARY :: "string list dict" where
  \<open>GRAMMAR_DICTIONARY =
  [(''statement'',
     [''query ws ";" ws'']),
   (''query'',
     [''(ws "(" ws "SELECT" ws distinct ws select_results ws "FROM" ws table_refs ws where_clause ws ")" ws)'',
      ''(ws "SELECT" ws distinct ws select_results ws "FROM" ws table_refs ws where_clause ws)'']),
   (''select_results'',
     [''col_refs'',
      ''agg'']),
   (''agg'',
     [''agg_func ws "(" ws col_ref ws ")"'']),
   (''agg_func'',
     [''"MIN"'',
      ''"min"'',
      ''"MAX"'',
      ''"max"'',
      ''"COUNT"'',
      ''"count"'']),
   (''col_refs'',
     [''(col_ref ws "," ws col_refs)'',
      ''(col_ref)'']),
   (''table_refs'',
     [''(table_name ws "," ws table_refs)'',
      ''(table_name)'']),
   (''where_clause'',
     [''("WHERE" ws "(" ws conditions ws ")" ws)'',
      ''("WHERE" ws conditions ws)'']),
   (''conditions'',
     [''(condition ws conj ws conditions)'',
      ''(condition ws conj ws "(" ws conditions ws ")")'',
      ''("(" ws conditions ws ")" ws conj ws conditions)'',
      ''("(" ws conditions ws ")")'',
      ''("not" ws conditions ws )'',
      ''("NOT" ws conditions ws )'',
      ''condition'']),
   (''condition'',
     [''in_clause'',
      ''ternaryexpr'',
      ''biexpr'']),
   (''in_clause'',
     [''(ws col_ref ws "IN" ws query ws)'']),
   (''biexpr'',
     [''( col_ref ws binaryop ws value)'',
      ''(value ws binaryop ws value)'']),
   (''binaryop'',
     [''"+"'',
      ''"-"'',
      ''"*"'',
      ''"/"'',
      ''"="'',
      ''">="'',
      ''"<="'',
      ''">"'',
      ''"<"'',
      ''"is"'',
      ''"IS"'']),
   (''ternaryexpr'',
     [''(col_ref ws "not" ws "BETWEEN" ws value ws "AND" ws value ws)'',
      ''(col_ref ws "NOT" ws "BETWEEN" ws value ws "AND" ws value ws)'',
      ''(col_ref ws "BETWEEN" ws value ws "AND" ws value ws)'']),
   (''value'',
     [''("not" ws pos_value)'',
      ''("NOT" ws pos_value)'',
      ''(pos_value)'']),
   (''pos_value'',
     [''("ALL" ws query)'',
      ''("ANY" ws query)'',
      ''number'',
      ''boolean'',
      ''col_ref'',
      ''agg_results'',
      ''"NULL"'']),
   (''agg_results'',
     [''(ws "("  ws "SELECT" ws distinct ws agg ws "FROM" ws table_name ws where_clause ws ")" ws)'',
      ''(ws "SELECT" ws distinct ws agg ws "FROM" ws table_name ws where_clause ws)'']),
   (''boolean'',
     [''"true"'',
      ''"false"'']),
   (''ws'',
     [''~"'' @ [CHR 0x5C] @ ''s*"i'']),
   (''conj'',
     [''"AND"'',
      ''"OR"'']),
   (''distinct'',
     [''("DISTINCT")'',
      ''("")'']),
   (''number'',
     [''""''])]\<close>

definition KEYWORDS :: "string list" where
  \<open>KEYWORDS =
    [''"SELECT"'', ''"FROM"'', ''"MIN"'', ''"MAX"'', ''"COUNT"'', ''"WHERE"'',
     ''"NOT"'', ''"IN"'', ''"LIKE"'', ''"IS"'', ''"BETWEEN"'', ''"AND"'',
     ''"ALL"'', ''"ANY"'', ''"NULL"'', ''"OR"'', ''"DISTINCT"'']\<close>

section \<open>The outside world\<close>

datatype error =
    AttributeError      \<comment> \<open>reading \<open>self.cursor\<close> when no database file was given\<close>
  | FetchError          \<comment> \<open>raised by \<open>cached_path\<close>\<close>
  | DatabaseError       \<comment> \<open>raised by \<open>sqlite3\<close>\<close>
  | GrammarError        \<comment> \<open>raised by the PEG engine\<close>

text \<open>
  What the grammar engine hands back for a grammar text: for every nonterminal its
  alternatives, each a sequence of right-hand-side symbols.
\<close>

type_synonym compiled_grammar = "string list list dict"

text \<open>
  The collaborators of the constructor that are not part of this repository:
  \<open>cached_path\<close> resolves the database file, \<open>sqlite3_connect\<close> opens it,
  \<open>execute_fetchall q\<close> is \<open>cursor.execute(q)\<close> followed by \<open>cursor.fetchall()\<close> on the
  connected database (the rows of a one-column query are 1-tuples; the list holds their
  components \<open>row[0]\<close>), and \<open>Grammar\<close> is the PEG engine.
\<close>

record env =
  cached_path :: "string \<Rightarrow> error + string"
  sqlite3_connect :: "string \<Rightarrow> error + unit"
  execute_fetchall :: "string \<Rightarrow> error + sql_value list"
  Grammar :: "string \<Rightarrow> error + compiled_grammar"

datatype conn_state = NoConnection | Open | Closed

text \<open>
  What the constructor changes while it runs: the grammar dictionary of the instance,
  whether the instance has a \<open>cursor\<close> attribute, the state of the connection it
  opened, and the queries it has sent.
\<close>

record state =
  grammar_dictionary :: "string list dict"
  has_cursor :: bool
  connection :: conn_state
  executed :: "string list"

section \<open>initialize_grammar_str\<close>

text \<open>The f-strings of the method.\<close>

definition table_name_expansion :: "string \<Rightarrow> string" where
  \<open>table_name_expansion table = ''"'' @ table @ ''"''\<close>

definition col_ref_expansion :: "string \<Rightarrow> string \<Rightarrow> string" where
  \<open>col_ref_expansion table column =
     ''("'' @ table @ ''" ws "." ws "'' @ column @ ''")''\<close>

definition string_nonterminal :: "string \<Rightarrow> string \<Rightarrow> string" where
  \<open>string_nonterminal table column = table @ ''_'' @ column @ ''_string''\<close>

definition biexpr_expansion :: "string \<Rightarrow> string \<Rightarrow> string" where
  \<open>biexpr_expansion table column =
     ''("'' @ table @ ''" ws "." ws "'' @ column @ ''" ws binaryop ws ''
       @ string_nonterminal table column @ '')''\<close>

definition distinct_query :: "string \<Rightarrow> string \<Rightarrow> string" where
  \<open>distinct_query table column =
     ''SELECT DISTINCT '' @ table @ '' . '' @ column @ '' FROM '' @ table\<close>

definition unquoted_literal :: "sql_value \<Rightarrow> string" where
  \<open>unquoted_literal v = ''"'' @ str v @ ''"''\<close>

definition quoted_literal :: "sql_value \<Rightarrow> string" where
  \<open>quoted_literal v = ''"'' @ [CHR 0x27] @ str v @ [CHR 0x27] @ ''"''\<close>

text \<open>The right-hand side stored for one constrained column (lines 137 to 142).\<close>

definition column_strings :: "string \<Rightarrow> sql_value list \<Rightarrow> string list" where
  "column_strings column rows =
     (if endswith column ''number''
      then sorted_reverse (map unquoted_literal rows)
      else sorted_reverse (map quoted_literal rows))"

text \<open>
  The inner loop \<open>for column in columns\<close>. Reading \<open>self.cursor\<close> raises when the
  attribute was never set; \<open>cursor.execute\<close> may raise.
\<close>

fun column_loop :: "env \<Rightarrow> string \<Rightarrow> string list \<Rightarrow> state \<Rightarrow> (error + unit) \<times> state" where
  "column_loop E table [] s = (Inr (), s)"
| "column_loop E table (column # columns) s =
     (if \<not> has_cursor s then (Inl AttributeError, s)
      else
        let q = distinct_query table column;
            s1 = s\<lparr>executed := executed s @ [q]\<rparr>
        in case execute_fetchall E q of
             Inl e \<Rightarrow> (Inl e, s1)
           | Inr rows \<Rightarrow>
               column_loop E table columns
                 (s1\<lparr>grammar_dictionary :=
                      AList.update (string_nonterminal table column)
                        (column_strings column rows) (grammar_dictionary s1)\<rparr>))"

text \<open>The outer loop \<open>for table, columns in self.tables_with_strings.items()\<close>,
  with the list \<open>biexprs\<close> it extends.\<close>

fun table_loop ::
  "env \<Rightarrow> string list dict \<Rightarrow> string list \<Rightarrow> state \<Rightarrow> (error + string list) \<times> state" where
  "table_loop E [] biexprs s = (Inr biexprs, s)"
| "table_loop E ((table, columns) # rest) biexprs s =
     (let biexprs' = biexprs @ map (biexpr_expansion table) columns
      in case column_loop E table columns s of
           (Inl e, s') \<Rightarrow> (Inl e, s')
         | (Inr u, s') \<Rightarrow> table_loop E rest biexprs' s')"

text \<open>
  Modelled from the spec: \<open>format_grammar_string\<close> of \<open>sql_context_utils\<close>, which is not
  among the sources. One rule per nonterminal, its alternatives joined with the
  ordered-choice operator, in the order of the dictionary.
\<close>

definition format_grammar_string :: "string list dict \<Rightarrow> string" where
  "format_grammar_string d =
     join [CHR 0x0A] (map (\<lambda>(nonterminal, rhs). nonterminal @ '' = '' @ join '' / '' rhs) d)"

definition schema_entries :: "string list dict \<Rightarrow> state \<Rightarrow> state" where
  \<open>schema_entries tables s =
     s\<lparr>grammar_dictionary :=
         AList.update ''col_ref''
           (sorted_reverse
              (''"*"'' # concat (map (\<lambda>(table, columns). map (col_ref_expansion table) columns)
                                     tables)))
           (AList.update ''table_name''
              (sorted_reverse (map table_name_expansion (map fst tables)))
              (grammar_dictionary s))\<rparr>\<close>

definition fallback_biexprs :: "string list" where
  "fallback_biexprs = [''( col_ref ws binaryop ws value)'', ''(value ws binaryop ws value)'']"

definition initialize_grammar_str ::
  "env \<Rightarrow> string list dict option \<Rightarrow> string list dict option \<Rightarrow> state
     \<Rightarrow> (error + string) \<times> state" where
  "initialize_grammar_str E all_tables tables_with_strings s =
     (let s1 = (if truthy all_tables then schema_entries (the all_tables) s else s)
      in case (if truthy tables_with_strings
               then table_loop E (the tables_with_strings) [] s1
               else (Inr [], s1)) of
           (Inl e, s2) \<Rightarrow> (Inl e, s2)
         | (Inr biexprs, s2) \<Rightarrow>
             (let s3 = s2\<lparr>grammar_dictionary :=
                            AList.update ''biexpr'' (sorted_reverse biexprs @ fallback_biexprs)
                              (grammar_dictionary s2)\<rparr>
              in (Inr (format_grammar_string (grammar_dictionary s3)), s3)))"

section \<open>The action table compiler\<close>

text \<open>\<open>s.upper()\<close> on the letters of ASCII.\<close>

definition upper_char :: "char \<Rightarrow> char" where
  "upper_char c =
     (if 97 \<le> (of_char c :: nat) \<and> (of_char c :: nat) \<le> 122
      then char_of ((of_char c :: nat) - 32) else c)"

definition upper :: "string \<Rightarrow> string" where
  "upper s = map upper_char s"

text \<open>
  Modelled from the spec: \<open>initialize_valid_actions\<close> of \<open>sql_context_utils\<close>, which is
  not among the sources. For every compiled nonterminal its alternative right-hand
  sides become canonical strings \<open>LHS -> RHS1 RHS2 ...\<close>; productions that differ from
  one another only in the letter-casing of keywords collapse into a single action,
  rendered using the first-encountered casing; every entry of the table is sorted.
\<close>

definition canonical_symbol :: "string list \<Rightarrow> string \<Rightarrow> string" where
  "canonical_symbol keywords tok = (if upper tok \<in> set keywords then upper tok else tok)"

definition case_key :: "string list \<Rightarrow> string list \<Rightarrow> string list" where
  "case_key keywords rhs = map (canonical_symbol keywords) rhs"

primrec keep_first ::
  "string list \<Rightarrow> string list list \<Rightarrow> string list list \<Rightarrow> string list list" where
  "keep_first keywords seen [] = []"
| "keep_first keywords seen (p # ps) =
     (if case_key keywords p \<in> set seen then keep_first keywords seen ps
      else p # keep_first keywords (case_key keywords p # seen) ps)"

definition canonical_productions :: "string list \<Rightarrow> string list list \<Rightarrow> string list list" where
  "canonical_productions keywords alternatives = keep_first keywords [] alternatives"

definition action_string :: "string \<Rightarrow> string list \<Rightarrow> string" where
  "action_string lhs rhs = lhs @ '' -> '' @ join '' '' rhs"

definition initialize_valid_actions :: "compiled_grammar \<Rightarrow> string list \<Rightarrow> string list dict" where
  "initialize_valid_actions g keywords =
     map (\<lambda>(lhs, alternatives).
            (lhs, sort (map (action_string lhs) (canonical_productions keywords alternatives)))) g"

text \<open>
  The reading of "differ only in the letter-casing of keywords" that the claims use:
  the two right-hand sides have the same length and, position by position, the symbols
  are equal or are two casings of one keyword.
\<close>

definition differ_only_in_keyword_case :: "string list \<Rightarrow> string list \<Rightarrow> string list \<Rightarrow> bool" where
  "differ_only_in_keyword_case keywords p q =
     (length p = length q \<and>
      list_all (\<lambda>(a, b). a = b \<or> (upper a = upper b \<and> upper a \<in> set keywords)) (zip p q))"

section \<open>The constructor\<close>

record AtisSqlTableContext =
  get_grammar_dictionary :: "string list dict"
  grammar_str :: string
  grammar :: compiled_grammar
  get_valid_actions :: "string list dict"

text \<open>The instance before anything happened: a copy of the base grammar, no cursor.\<close>

definition initial_state :: state where
  "initial_state =
     \<lparr>grammar_dictionary = GRAMMAR_DICTIONARY, has_cursor = False,
      connection = NoConnection, executed = []\<rparr>"

text \<open>Lines 100 to 103: \<open>if database_file:\<close> resolve the file, connect, take a cursor.\<close>

definition open_database :: "env \<Rightarrow> string option \<Rightarrow> state \<Rightarrow> (error + unit) \<times> state" where
  "open_database E database_file s =
     (if truthy database_file
      then (case cached_path E (the database_file) of
              Inl e \<Rightarrow> (Inl e, s)
            | Inr path \<Rightarrow>
                (case sqlite3_connect E path of
                   Inl e \<Rightarrow> (Inl e, s)
                 | Inr u \<Rightarrow> (Inr (), s\<lparr>connection := Open, has_cursor := True\<rparr>)))
      else (Inr (), s))"

definition AtisSqlTableContext_init ::
  "env \<Rightarrow> string list dict option \<Rightarrow> string list dict option \<Rightarrow> string option
     \<Rightarrow> (error + AtisSqlTableContext) \<times> state" where
  "AtisSqlTableContext_init E all_tables tables_with_strings database_file =
     (case open_database E database_file initial_state of
        (Inl e, s1) \<Rightarrow> (Inl e, s1)
      | (Inr u, s1) \<Rightarrow>
          (case initialize_grammar_str E all_tables tables_with_strings s1 of
             (Inl e, s2) \<Rightarrow> (Inl e, s2)
           | (Inr text, s2) \<Rightarrow>
               (case Grammar E text of
                  Inl e \<Rightarrow> (Inl e, s2)
                | Inr g \<Rightarrow>
                    (Inr \<lparr>get_grammar_dictionary = grammar_dictionary s2,
                          grammar_str = text,
                          grammar = g,
                          get_valid_actions = initialize_valid_actions g KEYWORDS\<rparr>,
                     if truthy database_file then s2\<lparr>connection := Closed\<rparr> else s2))))"

section \<open>Example inputs\<close>

text \<open>
  A stand-in for the PEG engine in the examples. Like the engine it refuses a grammar
  text in which a rule has no alternative, or which has no rule for \<open>col_ref\<close> or
  \<open>table_name\<close> (the base grammar refers to both). For a text it accepts it hands back
  a compiled grammar without rules.
\<close>

primrec split_lines :: "string \<Rightarrow> string list" where
  "split_lines [] = [[]]"
| "split_lines (c # cs) =
     (case split_lines cs of
        [] \<Rightarrow> [[c]]
      | l # ls \<Rightarrow> if c = CHR 0x0A then [] # l # ls else (c # l) # ls)"

definition startswith :: "string \<Rightarrow> string \<Rightarrow> bool" where
  "startswith s prefix = (take (length prefix) s = prefix)"

definition example_engine :: "string \<Rightarrow> error + compiled_grammar" where
  "example_engine text =
     (let rules = split_lines text
      in if list_all (\<lambda>rule. \<not> endswith rule '' = '') rules \<and>
            list_ex (\<lambda>rule. startswith rule ''col_ref = '') rules \<and>
            list_ex (\<lambda>rule. startswith rule ''table_name = '') rules
         then Inr [] else Inl GrammarError)"

text \<open>
  A condition on a grammar dictionary under which \<open>example_engine\<close> accepts its text
  (\<open>example_engine_accepts\<close> below): no string holds a line break, every rule has an
  alternative, the last one not ending in a blank, and \<open>col_ref\<close> and \<open>table_name\<close>
  have rules.
\<close>

definition accepted_dictionary :: "string list dict \<Rightarrow> bool" where
  "accepted_dictionary d =
     (d \<noteq> [] \<and>
      list_all (\<lambda>(nonterminal, rhs).
                  CHR 0x0A \<notin> set nonterminal \<and> list_all (\<lambda>a. CHR 0x0A \<notin> set a) rhs \<and>
                  rhs \<noteq> [] \<and> last rhs \<noteq> [] \<and> last (last rhs) \<noteq> CHR '' '') d \<and>
      ''col_ref'' \<in> set (map fst d) \<and> ''table_name'' \<in> set (map fst d))"

text \<open>
  An environment in which the file is found and the connection opens; \<open>db\<close> answers
  the queries.
\<close>

definition example_env :: "(string \<Rightarrow> error + sql_value list) \<Rightarrow> env" where
  "example_env db =
     \<lparr>cached_path = (\<lambda>file. Inr file), sqlite3_connect = (\<lambda>path. Inr ()),
      execute_fetchall = db, Grammar = example_engine\<rparr>"

definition empty_db :: "string \<Rightarrow> error + sql_value list" where
  "empty_db q = Inr []"

definition city_schema :: "string list dict" where
  "city_schema = [(''city'', [''city_name'', ''state''])]"

definition failing_db :: "string \<Rightarrow> error + sql_value list" where
  "failing_db q = Inl DatabaseError"

text \<open>A database that answers the query for \<open>city.state\<close> with \<open>rows\<close> and knows no
  other table.\<close>

definition city_state_db :: "sql_value list \<Rightarrow> string \<Rightarrow> error + sql_value list" where
  "city_state_db rows q =
     (if q = ''SELECT DISTINCT city . state FROM city'' then Inr rows else Inl DatabaseError)"

text \<open>A database with the table \<open>city\<close> and its two columns.\<close>

definition city_db :: "string \<Rightarrow> error + sql_value list" where
  "city_db q =
     (if q = ''SELECT DISTINCT city . city_name FROM city''
      then Inr [Text ''BOSTON'', Text ''DENVER'']
      else if q = ''SELECT DISTINCT city . state FROM city''
      then Inr [Text ''MA'', Text ''CO'']
      else Inl DatabaseError)"





section \<open>Notions the properties are stated with\<close>

text \<open>The constrained (table, column) pairs, in the order the two loops process them.\<close>

definition constrained_pairs :: "string list dict \<Rightarrow> (string \<times> string) list" where
  "constrained_pairs tws = concat (map (\<lambda>(table, columns). map (Pair table) columns) tws)"

text \<open>The alternatives a grammar dictionary gives a nonterminal: none when it has no
  rule.\<close>

definition alternatives :: "string list dict \<Rightarrow> string \<Rightarrow> string list" where
  "alternatives d nonterminal = (case map_of d nonterminal of None \<Rightarrow> [] | Some rhs \<Rightarrow> rhs)"

text \<open>
  The two nested loops seen as one loop over the constrained pairs, each step being the
  body of the inner loop. The proofs go through it; \<open>table_loop_pairs\<close> below shows that
  it is what the nested loops do.
\<close>

fun pair_loop :: "env \<Rightarrow> (string \<times> string) list \<Rightarrow> state \<Rightarrow> (error + unit) \<times> state" where
  "pair_loop E [] s = (Inr (), s)"
| "pair_loop E ((table, column) # pairs) s =
     (case column_loop E table [column] s of
        (Inl e, s') \<Rightarrow> (Inl e, s')
      | (Inr u, s') \<Rightarrow> pair_loop E pairs s')"

section \<open>Properties\<close>

lemma string_nonterminal_last: "last (string_nonterminal t c) = CHR ''g''"
  by (simp add: string_nonterminal_def)

lemma string_nonterminal_neq:
  "string_nonterminal t c \<noteq> ''table_name''"
  "string_nonterminal t c \<noteq> ''col_ref''"
  "string_nonterminal t c \<noteq> ''biexpr''"
  using string_nonterminal_last [of t c] by auto


lemma column_loop_frame:
  "column_loop E t cs s = (r, s') \<Longrightarrow>
     has_cursor s' = has_cursor s \<and> connection s' = connection s"
proof (induction cs arbitrary: s)
  case Nil
  then show ?case by simp
next
  case (Cons c cs)
  then show ?case
    by (auto simp: Let_def split: if_splits sum.splits)
qed

lemma column_loop_other_keys:
  "column_loop E t cs s = (r, s') \<Longrightarrow> last k \<noteq> CHR ''g'' \<Longrightarrow>
     map_of (grammar_dictionary s') k = map_of (grammar_dictionary s) k"
proof (induction cs arbitrary: s)
  case Nil
  then show ?case by simp
next
  case (Cons c cs)
  have ne: "k \<noteq> string_nonterminal t c"
    using Cons.prems(2) string_nonterminal_last by blast
  show ?case
  proof (cases "has_cursor s")
    case False
    with Cons.prems show ?thesis by simp
  next
    case True
    show ?thesis
    proof (cases "execute_fetchall E (distinct_query t c)")
      case (Inl e)
      with True Cons.prems show ?thesis by (auto simp: Let_def)
    next
      case (Inr rows)
      with True Cons.prems(1) Cons.IH [OF _ Cons.prems(2)] ne show ?thesis
        by (auto simp: Let_def update_conv')
    qed
  qed
qed

lemma table_loop_frame:
  "table_loop E tws b s = (r, s') \<Longrightarrow>
     has_cursor s' = has_cursor s \<and> connection s' = connection s"
proof (induction tws arbitrary: b s)
  case Nil
  then show ?case by simp
next
  case (Cons tc tws)
  obtain t cs where tc: "tc = (t, cs)" by (cases tc)
  obtain r1 s1 where cl: "column_loop E t cs s = (r1, s1)" by (cases "column_loop E t cs s")
  from column_loop_frame [OF cl] Cons.prems Cons.IH cl tc show ?case
    by (cases r1) (auto simp: Let_def)
qed

lemma table_loop_other_keys:
  "table_loop E tws b s = (r, s') \<Longrightarrow> last k \<noteq> CHR ''g'' \<Longrightarrow>
     map_of (grammar_dictionary s') k = map_of (grammar_dictionary s) k"
proof (induction tws arbitrary: b s)
  case Nil
  then show ?case by simp
next
  case (Cons tc tws)
  obtain t cs where tc: "tc = (t, cs)" by (cases tc)
  obtain r1 s1 where cl: "column_loop E t cs s = (r1, s1)" by (cases "column_loop E t cs s")
  from column_loop_other_keys [OF cl Cons.prems(2)] Cons.prems Cons.IH cl tc show ?case
    by (cases r1) (auto simp: Let_def)
qed


lemma initialize_grammar_str_frame:
  assumes "initialize_grammar_str E a t s = (r, s')"
  shows "has_cursor s' = has_cursor s \<and> connection s' = connection s"
proof -
  define s1 where "s1 = (if truthy a then schema_entries (the a) s else s)"
  have s1: "has_cursor s1 = has_cursor s \<and> connection s1 = connection s"
    by (simp add: s1_def schema_entries_def)
  obtain r2 s2 where loop:
    "(if truthy t then table_loop E (the t) [] s1 else (Inr [], s1)) = (r2, s2)"
    by (cases "if truthy t then table_loop E (the t) [] s1 else (Inr [], s1)")
  have s2: "has_cursor s2 = has_cursor s1 \<and> connection s2 = connection s1"
    using loop table_loop_frame by (auto split: if_splits)
  from assms loop have "has_cursor s' = has_cursor s2 \<and> connection s' = connection s2"
    unfolding initialize_grammar_str_def s1_def [symmetric]
    by (cases r2) (auto simp: Let_def)
  with s1 s2 show ?thesis by simp
qed

lemma initialize_grammar_str_other_keys:
  assumes "initialize_grammar_str E a t s = (r, s')"
    and "last k \<noteq> CHR ''g''" and "k \<noteq> ''biexpr''"
  shows "map_of (grammar_dictionary s') k =
         map_of (grammar_dictionary (if truthy a then schema_entries (the a) s else s)) k"
proof -
  define s1 where "s1 = (if truthy a then schema_entries (the a) s else s)"
  obtain r2 s2 where loop:
    "(if truthy t then table_loop E (the t) [] s1 else (Inr [], s1)) = (r2, s2)"
    by (cases "if truthy t then table_loop E (the t) [] s1 else (Inr [], s1)")
  have s2: "map_of (grammar_dictionary s2) k = map_of (grammar_dictionary s1) k"
    using loop table_loop_other_keys [OF _ assms(2)] by (auto split: if_splits)
  from assms(1,3) loop have "map_of (grammar_dictionary s') k = map_of (grammar_dictionary s2) k"
    unfolding initialize_grammar_str_def s1_def [symmetric]
    by (cases r2) (auto simp: Let_def update_conv')
  with s2 show ?thesis by (simp add: s1_def)
qed

lemma open_database_dictionary:
  "open_database E d s = (r, s') \<Longrightarrow> grammar_dictionary s' = grammar_dictionary s"
  by (auto simp: open_database_def split: if_splits sum.splits)

lemma init_cases:
  obtains (open_failed) e s1 where "open_database E d initial_state = (Inl e, s1)"
      "AtisSqlTableContext_init E a t d = (Inl e, s1)"
  | (grammar_str_failed) s1 e s2 where "open_database E d initial_state = (Inr (), s1)"
      "initialize_grammar_str E a t s1 = (Inl e, s2)"
      "AtisSqlTableContext_init E a t d = (Inl e, s2)"
  | (compile_failed) s1 gtext s2 e where "open_database E d initial_state = (Inr (), s1)"
      "initialize_grammar_str E a t s1 = (Inr gtext, s2)" "Grammar E gtext = Inl e"
      "AtisSqlTableContext_init E a t d = (Inl e, s2)"
  | (constructed) s1 gtext s2 g where "open_database E d initial_state = (Inr (), s1)"
      "initialize_grammar_str E a t s1 = (Inr gtext, s2)" "Grammar E gtext = Inr g"
      "AtisSqlTableContext_init E a t d =
         (Inr \<lparr>get_grammar_dictionary = grammar_dictionary s2, grammar_str = gtext,
               grammar = g, get_valid_actions = initialize_valid_actions g KEYWORDS\<rparr>,
          if truthy d then s2\<lparr>connection := Closed\<rparr> else s2)"
proof -
  obtain r1 s1 where o: "open_database E d initial_state = (r1, s1)"
    by (cases "open_database E d initial_state")
  show thesis
  proof (cases r1)
    case (Inl e)
    with o show thesis by (intro open_failed [of e s1]) (simp_all add: AtisSqlTableContext_init_def)
  next
    case (Inr u)
    with o have o': "open_database E d initial_state = (Inr (), s1)" by simp
    obtain r2 s2 where i: "initialize_grammar_str E a t s1 = (r2, s2)"
      by (cases "initialize_grammar_str E a t s1")
    show thesis
    proof (cases r2)
      case (Inl e)
      with o' i show thesis
        by (intro grammar_str_failed [of s1 e s2]) (simp_all add: AtisSqlTableContext_init_def)
    next
      case (Inr gtext)
      note gtext = this
      show thesis
      proof (cases "Grammar E gtext")
        case (Inl e)
        with o' i gtext show thesis
          by (intro compile_failed [of s1 gtext s2 e]) (simp_all add: AtisSqlTableContext_init_def)
      next
        case (Inr g)
        with o' i gtext show thesis
          by (intro constructed [of s1 gtext s2 g]) (simp_all add: AtisSqlTableContext_init_def)
      qed
    qed
  qed
qed


lemma no_schema_other_keys:
  assumes "\<not> truthy a" and "last k \<noteq> CHR ''g''" and "k \<noteq> ''biexpr''"
  shows "map_of (grammar_dictionary (snd (AtisSqlTableContext_init E a t d))) k =
         map_of GRAMMAR_DICTIONARY k"
proof -
  have start: "grammar_dictionary s1 = GRAMMAR_DICTIONARY"
    if "open_database E d initial_state = (r, s1)" for r s1
    using open_database_dictionary [OF that] by (simp add: initial_state_def)
  have after: "map_of (grammar_dictionary s2) k = map_of GRAMMAR_DICTIONARY k"
    if "open_database E d initial_state = (r, s1)"
      and "initialize_grammar_str E a t s1 = (r', s2)" for r s1 r' s2
    using initialize_grammar_str_other_keys [OF that(2) assms(2,3)] start [OF that(1)] assms(1)
    by simp
  show ?thesis
  proof (cases rule: init_cases [of E d a t])
    case (open_failed e s1)
    then show ?thesis using start by simp
  next
    case (grammar_str_failed s1 e s2)
    then show ?thesis using after by simp
  next
    case (compile_failed s1 gtext s2 e)
    then show ?thesis using after by simp
  next
    case (constructed s1 gtext s2 g)
    then show ?thesis using after by simp
  qed
qed

lemma init_object_dictionary:
  "AtisSqlTableContext_init E a t d = (Inr obj, s) \<Longrightarrow>
     get_grammar_dictionary obj = grammar_dictionary s"
  by (cases rule: init_cases [of E d a t]) auto

text \<open>
  C9. Without a schema the constructor leaves \<open>table_name\<close> and \<open>col_ref\<close> as the base
  grammar has them, on every exit path (the state that comes back holds the dictionary of
  the instance).
\<close>

theorem no_schema_keeps_template_entries:
  "map_of (grammar_dictionary
             (snd (AtisSqlTableContext_init E None tables_with_strings database_file)))
          ''table_name'' = map_of GRAMMAR_DICTIONARY ''table_name'' \<and>
   map_of (grammar_dictionary
             (snd (AtisSqlTableContext_init E None tables_with_strings database_file)))
          ''col_ref'' = map_of GRAMMAR_DICTIONARY ''col_ref''"
  using no_schema_other_keys [of None "''table_name''" E tables_with_strings database_file]
    no_schema_other_keys [of None "''col_ref''" E tables_with_strings database_file]
  by (simp add: truthy_def)

lemma city_schema_sorted:
  \<open>sorted_reverse (map table_name_expansion (map fst city_schema)) = [''"city"'']\<close>
  \<open>sorted_reverse
     (''"*"'' # concat (map (\<lambda>(table, columns). map (col_ref_expansion table) columns)
                            city_schema)) =
   [''("city" ws "." ws "state")'', ''("city" ws "." ws "city_name")'', ''"*"'']\<close>
  by code_simp+

lemma init_success:
  assumes "AtisSqlTableContext_init E a t d = (Inr obj, s)"
  obtains s1 gtext s2 where "open_database E d initial_state = (Inr (), s1)"
    and "initialize_grammar_str E a t s1 = (Inr gtext, s2)"
    and "get_grammar_dictionary obj = grammar_dictionary s2"
    and "get_valid_actions obj = initialize_valid_actions (grammar obj) KEYWORDS"
    and "Grammar E gtext = Inr (grammar obj)"
    and "s = (if truthy d then s2\<lparr>connection := Closed\<rparr> else s2)"
  using assms by (cases rule: init_cases [of E d a t]) auto

lemma split_lines_not_Nil: "split_lines s \<noteq> []"
  by (induction s) (auto split: list.splits)

lemma split_lines_line:
  "CHR 0x0A \<notin> set l \<Longrightarrow> split_lines (l @ CHR 0x0A # rest) = l # split_lines rest"
proof (induction l)
  case Nil
  then show ?case using split_lines_not_Nil [of rest] by (auto split: list.splits)
next
  case (Cons c l)
  then show ?case by (auto split: list.splits)
qed

lemma split_lines_single: "CHR 0x0A \<notin> set l \<Longrightarrow> split_lines l = [l]"
  by (induction l) (auto split: list.splits)

lemma split_lines_join:
  "ls \<noteq> [] \<Longrightarrow> \<forall>l\<in>set ls. CHR 0x0A \<notin> set l \<Longrightarrow> split_lines (join [CHR 0x0A] ls) = ls"
proof (induction "[CHR 0x0A]" ls rule: join.induct)
  case 1
  then show ?case by simp
next
  case (2 x)
  then show ?case by (simp add: split_lines_single)
next
  case (3 x y ys)
  then show ?case by (simp add: split_lines_line)
qed

lemma set_join: "set (join sep xs) \<subseteq> set sep \<union> \<Union> (set ` set xs)"
  by (induction sep xs rule: join.induct) auto

lemma last_join:
  "xs \<noteq> [] \<Longrightarrow> last xs \<noteq> [] \<Longrightarrow> join sep xs \<noteq> [] \<and> last (join sep xs) = last (last xs)"
  by (induction sep xs rule: join.induct) auto

lemma endswith_last:
  assumes "endswith s suf" and "suf \<noteq> []"
  shows "last s = last suf"
proof -
  from assms(1) have "s = take (length s - length suf) s @ suf"
    by (metis append_take_drop_id endswith_def)
  then have "last s = last (take (length s - length suf) s @ suf)" by simp
  with assms(2) show ?thesis by simp
qed

lemma rule_line_accepted:
  assumes "rhs \<noteq> []" and "last rhs \<noteq> []" and "last (last rhs) \<noteq> CHR '' ''"
  shows "\<not> endswith (nonterminal @ '' = '' @ join '' / '' rhs) '' = ''"
proof
  assume "endswith (nonterminal @ '' = '' @ join '' / '' rhs) '' = ''"
  then have "last (nonterminal @ '' = '' @ join '' / '' rhs) = last '' = ''"
    by (rule endswith_last) simp
  moreover from last_join [OF assms(1,2), of "'' / ''"]
  have "last (nonterminal @ '' = '' @ join '' / '' rhs) = last (last rhs)"
    by simp
  ultimately show False using assms(3) by simp
qed

lemma rule_line_no_newline:
  assumes "CHR 0x0A \<notin> set nonterminal" and "\<forall>a\<in>set rhs. CHR 0x0A \<notin> set a"
  shows "CHR 0x0A \<notin> set (nonterminal @ '' = '' @ join '' / '' rhs)"
  using assms set_join [of "'' / ''" rhs] by auto

lemma example_engine_accepts:
  assumes "accepted_dictionary d"
  shows "example_engine (format_grammar_string d) = Inr []"
proof -
  let ?line = "\<lambda>(nonterminal, rhs). nonterminal @ '' = '' @ join '' / '' rhs"
  let ?lines = "map ?line d"
  from assms have ne: "d \<noteq> []"
    and all: "\<forall>(k, rhs)\<in>set d. CHR 0x0A \<notin> set k \<and> (\<forall>a\<in>set rhs. CHR 0x0A \<notin> set a) \<and>
                 rhs \<noteq> [] \<and> last rhs \<noteq> [] \<and> last (last rhs) \<noteq> CHR '' ''"
    and keys: "''col_ref'' \<in> fst ` set d" "''table_name'' \<in> fst ` set d"
    by (auto simp: accepted_dictionary_def list_all_iff)
  have "\<forall>l\<in>set ?lines. CHR 0x0A \<notin> set l"
    using all rule_line_no_newline by fastforce
  with ne have lines: "split_lines (format_grammar_string d) = ?lines"
    by (simp add: format_grammar_string_def split_lines_join)
  have ok: "list_all (\<lambda>rule. \<not> endswith rule '' = '') ?lines"
    using all rule_line_accepted by (fastforce simp: list_all_iff)
  have has: "list_ex (\<lambda>rule. startswith rule (k @ '' = '')) ?lines" if "k \<in> fst ` set d" for k
  proof -
    from that obtain rhs where "(k, rhs) \<in> set d" by auto
    then have "k @ '' = '' @ join '' / '' rhs \<in> set ?lines" by force
    moreover have "startswith (k @ '' = '' @ join '' / '' rhs) (k @ '' = '')"
      by (simp add: startswith_def)
    ultimately show ?thesis unfolding list_ex_iff by blast
  qed
  from has [OF keys(1)] has [OF keys(2)] ok show ?thesis
    unfolding example_engine_def lines Let_def by simp
qed

lemma example_env_constructs:
  assumes "\<not> isl (fst (initialize_grammar_str (example_env db) a t
                          (snd (open_database (example_env db) d initial_state))))"
    and "accepted_dictionary (grammar_dictionary
           (snd (initialize_grammar_str (example_env db) a t
                   (snd (open_database (example_env db) d initial_state)))))"
  shows "\<not> isl (fst (AtisSqlTableContext_init (example_env db) a t d))"
proof -
  have o: "fst (open_database (example_env db) d initial_state) = Inr ()"
    by (simp add: open_database_def example_env_def)
  obtain s1 where s1: "open_database (example_env db) d initial_state = (Inr (), s1)"
    using o by (cases "open_database (example_env db) d initial_state") auto
  obtain r s2 where i: "initialize_grammar_str (example_env db) a t s1 = (r, s2)"
    by (cases "initialize_grammar_str (example_env db) a t s1")
  from assms(1) s1 i obtain gtext where r: "r = Inr gtext" by (cases r) auto
  from i r have gtext: "gtext = format_grammar_string (grammar_dictionary s2)"
    by (auto simp: initialize_grammar_str_def Let_def split: prod.splits sum.splits)
  from assms(2) s1 i have "accepted_dictionary (grammar_dictionary s2)" by simp
  then have "Grammar (example_env db) gtext = Inr []"
    unfolding gtext by (simp add: example_env_def example_engine_accepts)
  with s1 i r show ?thesis
    by (simp add: AtisSqlTableContext_init_def)
qed

lemma constructed_dictionary:
  assumes "\<not> isl (fst (AtisSqlTableContext_init E a t d))"
  shows "get_grammar_dictionary (projr (fst (AtisSqlTableContext_init E a t d))) =
         grammar_dictionary
           (snd (initialize_grammar_str E a t (snd (open_database E d initial_state))))"
proof -
  obtain r s where rs: "AtisSqlTableContext_init E a t d = (r, s)"
    by (cases "AtisSqlTableContext_init E a t d")
  with assms obtain obj where "r = Inr obj" by (cases r) auto
  with rs have "AtisSqlTableContext_init E a t d = (Inr obj, s)" by simp
  then obtain s1 gtext s2 where "open_database E d initial_state = (Inr (), s1)"
    and "initialize_grammar_str E a t s1 = (Inr gtext, s2)"
    and "get_grammar_dictionary obj = grammar_dictionary s2"
    by (rule init_success)
  with rs \<open>r = Inr obj\<close> show ?thesis by simp
qed

text \<open>
  C2, amended. For the schema \<open>{"city": ["city_name", "state"]}\<close> without string
  constraints, \<open>table_name\<close> is \<open>['"city"']\<close> and \<open>col_ref\<close> is the two column
  alternatives, \<open>state\<close> before \<open>city_name\<close>, and the wildcard last.
\<close>

theorem city_schema_entries:
  assumes \<open>AtisSqlTableContext_init E (Some [(''city'', [''city_name'', ''state''])]) None
             database_file = (Inr obj, s)\<close>
  shows \<open>map_of (get_grammar_dictionary obj) ''table_name'' = Some [''"city"''] \<and>
         map_of (get_grammar_dictionary obj) ''col_ref'' =
           Some [''("city" ws "." ws "state")'', ''("city" ws "." ws "city_name")'', ''"*"'']\<close>
proof -
  from assms obtain s1 gtext s2 where
    i: "initialize_grammar_str E (Some city_schema) None s1 = (Inr gtext, s2)"
    and d: "get_grammar_dictionary obj = grammar_dictionary s2"
    unfolding city_schema_def [symmetric] by (rule init_success)
  have t: "truthy (Some city_schema)" by (simp add: truthy_def city_schema_def)
  have "map_of (grammar_dictionary s2) ''table_name'' =
        map_of (grammar_dictionary (schema_entries city_schema s1)) ''table_name''"
    using initialize_grammar_str_other_keys [OF i, of "''table_name''"] t by simp
  moreover have "map_of (grammar_dictionary s2) ''col_ref'' =
        map_of (grammar_dictionary (schema_entries city_schema s1)) ''col_ref''"
    using initialize_grammar_str_other_keys [OF i, of "''col_ref''"] t by simp
  ultimately show ?thesis
    using city_schema_sorted by (simp add: d schema_entries_def update_conv')
qed

theorem city_schema_entries_witness:
  \<open>map_of (get_grammar_dictionary
       (projr (fst (AtisSqlTableContext_init (example_env empty_db)
                      (Some [(''city'', [''city_name'', ''state''])]) None None))))
     ''col_ref'' =
   Some [''("city" ws "." ws "state")'', ''("city" ws "." ws "city_name")'', ''"*"'']\<close>
proof -
  obtain r s where rs: \<open>AtisSqlTableContext_init (example_env empty_db)
                      (Some [(''city'', [''city_name'', ''state''])]) None None = (r, s)\<close>
    by (cases \<open>AtisSqlTableContext_init (example_env empty_db)
                      (Some [(''city'', [''city_name'', ''state''])]) None None\<close>)
  have \<open>\<not> isl (fst (AtisSqlTableContext_init (example_env empty_db)
                      (Some [(''city'', [''city_name'', ''state''])]) None None))\<close>
    by (rule example_env_constructs; code_simp)
  with rs obtain obj where "r = Inr obj" by (cases r) auto
  with rs city_schema_entries [of "example_env empty_db" None obj s] show ?thesis
    by simp
qed

theorem city_schema_wildcard_first_counterexample:
  \<open>\<not> isl (fst (AtisSqlTableContext_init (example_env empty_db) (Some city_schema) None None)) \<and>
   map_of (get_grammar_dictionary
       (projr (fst (AtisSqlTableContext_init (example_env empty_db) (Some city_schema) None None))))
     ''col_ref'' \<noteq>
   Some [''"*"'', ''("city" ws "." ws "state")'', ''("city" ws "." ws "city_name")'']\<close>
proof -
  have c: "\<not> isl (fst (AtisSqlTableContext_init (example_env empty_db) (Some city_schema)
                        None None))"
    by (rule example_env_constructs; code_simp)
  have \<open>map_of (grammar_dictionary
             (snd (initialize_grammar_str (example_env empty_db) (Some city_schema) None
                     (snd (open_database (example_env empty_db) None initial_state)))))
          ''col_ref'' \<noteq>
        Some [''"*"'', ''("city" ws "." ws "state")'', ''("city" ws "." ws "city_name")'']\<close>
    by code_simp
  with c show ?thesis by (simp only: constructed_dictionary [OF c] simp_thms)
qed

lemma column_loop_no_cursor:
  "\<not> has_cursor s \<Longrightarrow>
     column_loop E t cs s = (if cs = [] then Inr () else Inl AttributeError, s)"
  by (cases cs) simp_all

lemma table_loop_no_cursor:
  assumes "\<not> has_cursor s" and "(t, cs) \<in> set tws" and "cs \<noteq> []"
  shows "table_loop E tws b s = (Inl AttributeError, s)"
  using assms(2)
proof (induction tws arbitrary: b)
  case Nil
  then show ?case by simp
next
  case (Cons tc tws)
  obtain t' cs' where tc: "tc = (t', cs')" by (cases tc)
  show ?case
  proof (cases "cs' = []")
    case True
    with Cons tc assms(3) show ?thesis
      by (auto simp: column_loop_no_cursor [OF assms(1)])
  next
    case False
    with tc show ?thesis
      by (simp add: column_loop_no_cursor [OF assms(1)])
  qed
qed

text \<open>
  C10, amended. When \<open>tables_with_strings\<close> names at least one column and no database
  file is given, the constructor raises \<open>AttributeError\<close> before any query is sent: no
  cursor and no connection were ever created, and no instance comes back.
\<close>

theorem constraints_without_database_raise:
  assumes "\<not> truthy database_file" and "(t, cs) \<in> set tws" and "cs \<noteq> []"
  shows "fst (AtisSqlTableContext_init E all_tables (Some tws) database_file) = Inl AttributeError \<and>
         executed (snd (AtisSqlTableContext_init E all_tables (Some tws) database_file)) = [] \<and>
         \<not> has_cursor (snd (AtisSqlTableContext_init E all_tables (Some tws) database_file)) \<and>
         connection (snd (AtisSqlTableContext_init E all_tables (Some tws) database_file))
           = NoConnection"
proof -
  define s1 where
    "s1 = (if truthy all_tables then schema_entries (the all_tables) initial_state
           else initial_state)"
  have s1: "\<not> has_cursor s1" "executed s1 = []" "connection s1 = NoConnection"
    by (simp_all add: s1_def schema_entries_def initial_state_def)
  have tr: "truthy (Some tws)"
    using assms(2) by (auto simp: truthy_def)
  have "initialize_grammar_str E all_tables (Some tws) initial_state = (Inl AttributeError, s1)"
    unfolding initialize_grammar_str_def s1_def [symmetric]
    using tr table_loop_no_cursor [OF s1(1) assms(2,3)] by (simp add: Let_def)
  then have "AtisSqlTableContext_init E all_tables (Some tws) database_file
             = (Inl AttributeError, s1)"
    using assms(1) by (simp add: AtisSqlTableContext_init_def open_database_def)
  with s1 show ?thesis by simp
qed

theorem constraints_without_database_raise_witness:
  "fst (AtisSqlTableContext_init (example_env empty_db) (Some city_schema)
          (Some [(''city'', [''state''])]) None) = Inl AttributeError \<and>
   executed (snd (AtisSqlTableContext_init (example_env empty_db) (Some city_schema)
          (Some [(''city'', [''state''])]) None)) = []"
  using constraints_without_database_raise [of None "''city''" "[''state'']"
      "[(''city'', [''state''])]" "example_env empty_db" "Some city_schema"]
  by (simp add: truthy_def)

theorem empty_column_list_without_database_counterexample:
  "truthy (Some [(''city'', [] :: string list)]) \<and>
   \<not> isl (fst (AtisSqlTableContext_init (example_env empty_db) (Some city_schema)
                 (Some [(''city'', [])]) None))"
proof -
  have "\<not> isl (fst (AtisSqlTableContext_init (example_env empty_db) (Some city_schema)
                 (Some [(''city'', [])]) None))"
    by (rule example_env_constructs; code_simp)
  then show ?thesis by (simp add: truthy_def)
qed

lemma open_database_opened:
  assumes "truthy d" and "cached_path E (the d) = Inr path" and "sqlite3_connect E path = Inr ()"
  shows "open_database E d s = (Inr (), s\<lparr>connection := Open, has_cursor := True\<rparr>)"
  using assms by (simp add: open_database_def)

lemma connection_closed_only_on_success:
  assumes "truthy database_file"
    and "cached_path E (the database_file) = Inr path"
    and "sqlite3_connect E path = Inr ()"
  shows "connection (snd (AtisSqlTableContext_init E all_tables tables_with_strings database_file))
         = (if isl (fst (AtisSqlTableContext_init E all_tables tables_with_strings database_file))
            then Open else Closed)"
proof -
  note o = open_database_opened [OF assms, of initial_state]
  show ?thesis
  proof (cases rule: init_cases [of E database_file all_tables tables_with_strings])
    case (open_failed e s1)
    with o show ?thesis by simp
  next
    case (grammar_str_failed s1 e s2)
    with o initialize_grammar_str_frame [OF grammar_str_failed(2)] show ?thesis by auto
  next
    case (compile_failed s1 gtext s2 e)
    with o initialize_grammar_str_frame [OF compile_failed(2)] show ?thesis by auto
  next
    case (constructed s1 gtext s2 g)
    with assms(1) show ?thesis by simp
  qed
qed

text \<open>
  C3. The connection is not closed on every exit path: with a database in which the
  distinct-value query fails (no table \<open>city\<close>), the constructor raises the error of
  the query and the connection it opened is still open. By the lemma above this is so
  whenever a step after the connection was opened raises; only the returning path
  closes.
\<close>

theorem failed_query_leaves_connection_open:
  "fst (AtisSqlTableContext_init (example_env failing_db) (Some city_schema)
          (Some [(''city'', [''state''])]) (Some ''atis.db'')) = Inl DatabaseError \<and>
   executed (snd (AtisSqlTableContext_init (example_env failing_db) (Some city_schema)
          (Some [(''city'', [''state''])]) (Some ''atis.db'')))
     = [''SELECT DISTINCT city . state FROM city''] \<and>
   connection (snd (AtisSqlTableContext_init (example_env failing_db) (Some city_schema)
          (Some [(''city'', [''state''])]) (Some ''atis.db''))) = Open"
  by code_simp

lemma constrained_pairs_Cons:
  "constrained_pairs ((t, cs) # tws) = map (Pair t) cs @ constrained_pairs tws"
  by (simp add: constrained_pairs_def)

lemma table_loop_biexprs:
  "table_loop E tws b s = (Inr b', s') \<Longrightarrow>
     b' = b @ map (\<lambda>(t, c). biexpr_expansion t c) (constrained_pairs tws)"
proof (induction tws arbitrary: b s)
  case Nil
  then show ?case by (simp add: constrained_pairs_def)
next
  case (Cons tc tws)
  obtain t cs where tc: "tc = (t, cs)" by (cases tc)
  obtain r1 s1 where cl: "column_loop E t cs s = (r1, s1)" by (cases "column_loop E t cs s")
  show ?case
  proof (cases r1)
    case (Inl e)
    with Cons.prems tc cl show ?thesis by simp
  next
    case (Inr u)
    with Cons.prems tc cl
    have "table_loop E tws (b @ map (biexpr_expansion t) cs) s1 = (Inr b', s')"
      by simp
    from Cons.IH [OF this] show ?thesis
      by (simp add: tc constrained_pairs_Cons comp_def)
  qed
qed

lemma initialize_grammar_str_biexpr:
  assumes "initialize_grammar_str E a t s = (Inr gtext, s')" and t: "t = Some tws"
  shows "map_of (grammar_dictionary s') ''biexpr'' =
         Some (sorted_reverse (map (\<lambda>(t, c). biexpr_expansion t c) (constrained_pairs tws))
               @ fallback_biexprs)"
proof -
  define s1 where "s1 = (if truthy a then schema_entries (the a) s else s)"
  obtain r2 s2 where loop:
    "(if truthy t then table_loop E (the t) [] s1 else (Inr [], s1)) = (r2, s2)"
    by (cases "if truthy t then table_loop E (the t) [] s1 else (Inr [], s1)")
  from assms(1) loop obtain b where r2: "r2 = Inr b"
    unfolding initialize_grammar_str_def s1_def [symmetric]
    by (cases r2) (auto simp: Let_def)
  have b: "b = map (\<lambda>(t, c). biexpr_expansion t c) (constrained_pairs tws)"
  proof (cases "tws = []")
    case True
    with loop r2 t show ?thesis by (simp add: truthy_def constrained_pairs_def)
  next
    case False
    with loop r2 t have "table_loop E tws [] s1 = (Inr b, s2)" by (simp add: truthy_def)
    from table_loop_biexprs [OF this] show ?thesis by simp
  qed
  from assms(1) loop r2 have "map_of (grammar_dictionary s') ''biexpr'' =
      Some (sorted_reverse b @ fallback_biexprs)"
    unfolding initialize_grammar_str_def s1_def [symmetric]
    by (auto simp: Let_def update_conv')
  with b show ?thesis by simp
qed

text \<open>
  C1, amended. With a StringConstraintSpec the \<open>biexpr\<close> entry holds one production per
  constrained (table, column) pair, in descending order of the production strings (not in
  the order the pairs were processed), followed by the two generic alternatives as the
  last two entries.
\<close>

theorem biexpr_productions_descending_then_fallbacks:
  assumes "AtisSqlTableContext_init E all_tables (Some tws) database_file = (Inr obj, s)"
  shows "\<exists>ps. map_of (get_grammar_dictionary obj) ''biexpr'' =
                Some (ps @ [''( col_ref ws binaryop ws value)'', ''(value ws binaryop ws value)'']) \<and>
              mset ps = mset (map (\<lambda>(t, c). biexpr_expansion t c) (constrained_pairs tws)) \<and>
              sorted (rev ps)"
proof -
  from assms obtain s1 gtext s2 where
    i: "initialize_grammar_str E all_tables (Some tws) s1 = (Inr gtext, s2)"
    and d: "get_grammar_dictionary obj = grammar_dictionary s2"
    by (rule init_success)
  let ?ps = "sorted_reverse (map (\<lambda>(t, c). biexpr_expansion t c) (constrained_pairs tws))"
  have "map_of (get_grammar_dictionary obj) ''biexpr'' =
        Some (?ps @ [''( col_ref ws binaryop ws value)'', ''(value ws binaryop ws value)''])"
    using initialize_grammar_str_biexpr [OF i refl] by (simp add: d fallback_biexprs_def)
  moreover have "mset ?ps = mset (map (\<lambda>(t, c). biexpr_expansion t c) (constrained_pairs tws))"
    by (simp add: sorted_reverse_def)
  moreover have "sorted (rev ?ps)"
    by (simp add: sorted_reverse_def)
  ultimately show ?thesis by blast
qed

theorem biexpr_productions_descending_then_fallbacks_witness:
  "\<exists>ps. map_of (get_grammar_dictionary (projr (fst
            (AtisSqlTableContext_init (example_env city_db) (Some city_schema)
               (Some city_schema) (Some ''atis.db''))))) ''biexpr'' =
          Some (ps @ [''( col_ref ws binaryop ws value)'', ''(value ws binaryop ws value)'']) \<and>
        mset ps = mset (map (\<lambda>(t, c). biexpr_expansion t c) (constrained_pairs city_schema)) \<and>
        sorted (rev ps)"
proof -
  obtain r s where rs: "AtisSqlTableContext_init (example_env city_db) (Some city_schema)
               (Some city_schema) (Some ''atis.db'') = (r, s)"
    by (cases "AtisSqlTableContext_init (example_env city_db) (Some city_schema)
               (Some city_schema) (Some ''atis.db'')")
  have "\<not> isl (fst (AtisSqlTableContext_init (example_env city_db) (Some city_schema)
               (Some city_schema) (Some ''atis.db'')))"
    by (rule example_env_constructs; code_simp)
  with rs obtain obj where "r = Inr obj" by (cases r) auto
  with rs biexpr_productions_descending_then_fallbacks
      [of "example_env city_db" "Some city_schema" city_schema "Some ''atis.db''" obj s]
  show ?thesis by simp
qed

theorem biexpr_processing_order_counterexample:
  "\<not> isl (fst (AtisSqlTableContext_init (example_env city_db) (Some city_schema)
                 (Some city_schema) (Some ''atis.db''))) \<and>
   map_of (get_grammar_dictionary (projr (fst
            (AtisSqlTableContext_init (example_env city_db) (Some city_schema)
               (Some city_schema) (Some ''atis.db''))))) ''biexpr'' \<noteq>
   Some (map (\<lambda>(t, c). biexpr_expansion t c) (constrained_pairs city_schema)
         @ [''( col_ref ws binaryop ws value)'', ''(value ws binaryop ws value)''])"
proof -
  have c: "\<not> isl (fst (AtisSqlTableContext_init (example_env city_db) (Some city_schema)
                 (Some city_schema) (Some ''atis.db'')))"
    by (rule example_env_constructs; code_simp)
  have "map_of (grammar_dictionary
          (snd (initialize_grammar_str (example_env city_db) (Some city_schema)
                  (Some city_schema)
                  (snd (open_database (example_env city_db) (Some ''atis.db'') initial_state)))))
          ''biexpr'' \<noteq>
        Some (map (\<lambda>(t, c). biexpr_expansion t c) (constrained_pairs city_schema)
              @ [''( col_ref ws binaryop ws value)'', ''(value ws binaryop ws value)''])"
    by code_simp
  with c show ?thesis by (simp only: constructed_dictionary [OF c] simp_thms)
qed

lemma sorted_reverse_length: "length (sorted_reverse xs) = length xs"
  by (simp add: sorted_reverse_def)

lemma sorted_reverse_set: "set (sorted_reverse xs) = set xs"
  by (simp add: sorted_reverse_def)

lemma sorted_reverse_strict:
  "distinct xs \<Longrightarrow> sorted_wrt (\<lambda>x y. x > y) (sorted_reverse xs)"
  by (simp add: sorted_reverse_def sorted_wrt_rev strict_sorted_iff)

lemma table_name_expansion_inj: "inj table_name_expansion"
  by (rule injI) (simp add: table_name_expansion_def)

text \<open>
  C6. For a schema with N tables the \<open>table_name\<close> nonterminal has exactly N
  alternatives, the quoted table names, in strictly descending order. (For N = 0 the
  dictionary has no \<open>table_name\<close> rule at all.)
\<close>

theorem table_name_alternatives:
  assumes "AtisSqlTableContext_init E (Some tables) tables_with_strings database_file
           = (Inr obj, s)"
    and "distinct (map fst tables)"
  shows \<open>length (alternatives (get_grammar_dictionary obj) ''table_name'') = length tables \<and>
         set (alternatives (get_grammar_dictionary obj) ''table_name'')
           = (\<lambda>table. ''"'' @ table @ ''"'') ` fst ` set tables \<and>
         sorted_wrt (\<lambda>x y. x > y) (alternatives (get_grammar_dictionary obj) ''table_name'') \<and>
         (map_of (get_grammar_dictionary obj) ''table_name'' = None) = (tables = [])\<close>
proof -
  from assms(1) obtain s1 gtext s2 where
    o: "open_database E database_file initial_state = (Inr (), s1)"
    and i: "initialize_grammar_str E (Some tables) tables_with_strings s1 = (Inr gtext, s2)"
    and d: "get_grammar_dictionary obj = grammar_dictionary s2"
    by (rule init_success)
  note k = initialize_grammar_str_other_keys [OF i, of "''table_name''"]
  show ?thesis
  proof (cases "tables = []")
    case True
    then have "map_of (grammar_dictionary s2) ''table_name'' = map_of GRAMMAR_DICTIONARY ''table_name''"
      using k open_database_dictionary [OF o] by (simp add: truthy_def initial_state_def)
    also have "\<dots> = None" by code_simp
    finally show ?thesis using True by (simp add: d alternatives_def)
  next
    case False
    let ?alts = "sorted_reverse (map table_name_expansion (map fst tables))"
    from False have "map_of (grammar_dictionary s2) ''table_name'' = Some ?alts"
      using k by (simp add: truthy_def schema_entries_def update_conv')
    then have a: "alternatives (get_grammar_dictionary obj) ''table_name'' = ?alts"
      and b: "map_of (get_grammar_dictionary obj) ''table_name'' \<noteq> None"
      by (simp_all add: d alternatives_def)
    have "distinct (map table_name_expansion (map fst tables))"
      using assms(2) table_name_expansion_inj by (simp add: distinct_map inj_on_def inj_def)
    then have "sorted_wrt (\<lambda>x y. x > y) ?alts" by (rule sorted_reverse_strict)
    moreover have \<open>set ?alts = (\<lambda>table. ''"'' @ table @ ''"'') ` fst ` set tables\<close>
      by (auto simp: sorted_reverse_set table_name_expansion_def)
    ultimately show ?thesis using False a b by (simp add: sorted_reverse_length)
  qed
qed

theorem table_name_alternatives_witness:
  \<open>alternatives (get_grammar_dictionary (projr (fst
       (AtisSqlTableContext_init (example_env empty_db)
          (Some [(''city'', [''state'']), (''airport'', [''airport_code''])]) None None))))
     ''table_name'' = [''"city"'', ''"airport"'']\<close>
proof -
  let ?R = "AtisSqlTableContext_init (example_env empty_db)
          (Some [(''city'', [''state'']), (''airport'', [''airport_code''])]) None None"
  obtain r s where rs: "?R = (r, s)" by (cases ?R)
  have "\<not> isl (fst ?R)" by (rule example_env_constructs; code_simp)
  with rs obtain obj where obj: "r = Inr obj" by (cases r) auto
  have *: "xs = [a, b]" if "length xs = 2" "set xs = {a, b}" "sorted_wrt (\<lambda>x y. x > y) xs" "a > b"
    for xs :: "string list" and a b
  proof -
    from that(1) obtain x y where xs: "xs = [x, y]"
      by (cases xs; cases "tl xs") auto
    with that(2,3,4) show ?thesis by (auto simp: doubleton_eq_iff)
  qed
  have gt: \<open>(''"city"'' :: string) > ''"airport"''\<close> by code_simp
  from table_name_alternatives [of "example_env empty_db"
      "[(''city'', [''state'']), (''airport'', [''airport_code''])]" None None obj s] rs obj
  show ?thesis by (intro * [OF _ _ _ gt]) (auto simp: insert_commute)
qed

lemma column_loop_step:
  "column_loop E t (c # cs) s =
     (case column_loop E t [c] s of
        (Inl e, s') \<Rightarrow> (Inl e, s')
      | (Inr u, s') \<Rightarrow> column_loop E t cs s')"
  by (simp add: Let_def split: sum.splits)

lemma column_loop_pairs: "column_loop E t cs s = pair_loop E (map (Pair t) cs) s"
proof (induction cs arbitrary: s)
  case Nil
  show ?case by simp
next
  case (Cons c cs)
  show ?case
    unfolding column_loop_step [of E t c cs s]
    by (simp add: Cons.IH split: prod.splits sum.splits del: column_loop.simps)
qed

lemma pair_loop_append:
  "pair_loop E (xs @ ys) s =
     (case pair_loop E xs s of
        (Inl e, s') \<Rightarrow> (Inl e, s')
      | (Inr u, s') \<Rightarrow> pair_loop E ys s')"
proof (induction xs arbitrary: s)
  case Nil
  show ?case by simp
next
  case (Cons x xs)
  obtain t c where x: "x = (t, c)" by (cases x)
  show ?case
    by (simp add: x Cons.IH split: prod.splits sum.splits del: column_loop.simps)
qed

lemma table_loop_pairs:
  "table_loop E tws b s =
     (case pair_loop E (constrained_pairs tws) s of
        (Inl e, s') \<Rightarrow> (Inl e, s')
      | (Inr u, s') \<Rightarrow>
          (Inr (b @ map (\<lambda>(t, c). biexpr_expansion t c) (constrained_pairs tws)), s'))"
proof (induction tws arbitrary: b s)
  case Nil
  show ?case by (simp add: constrained_pairs_def)
next
  case (Cons tc tws)
  obtain t cs where tc: "tc = (t, cs)" by (cases tc)
  show ?case
    unfolding tc constrained_pairs_Cons pair_loop_append
    by (simp add: Cons.IH column_loop_pairs comp_def split: prod.splits sum.splits)
qed

lemma single_column_stored:
  assumes "column_loop E t [c] s = (Inr u, s')"
  obtains rows where "execute_fetchall E (distinct_query t c) = Inr rows"
    and "grammar_dictionary s' =
           AList.update (string_nonterminal t c) (column_strings c rows) (grammar_dictionary s)"
  using assms by (auto simp: Let_def split: if_splits sum.splits)

lemma pair_loop_other_keys:
  "pair_loop E ps s = (r, s') \<Longrightarrow> k \<notin> (\<lambda>(t, c). string_nonterminal t c) ` set ps \<Longrightarrow>
     map_of (grammar_dictionary s') k = map_of (grammar_dictionary s) k"
proof (induction ps arbitrary: s)
  case Nil
  then show ?case by simp
next
  case (Cons p ps)
  obtain t c where p: "p = (t, c)" by (cases p)
  obtain r1 s1 where st: "column_loop E t [c] s = (r1, s1)" by (cases "column_loop E t [c] s")
  have k: "k \<noteq> string_nonterminal t c" "k \<notin> (\<lambda>(t, c). string_nonterminal t c) ` set ps"
    using Cons.prems(2) p by auto
  have one: "map_of (grammar_dictionary s1) k = map_of (grammar_dictionary s) k"
    using st k(1) by (auto simp: Let_def update_conv' split: if_splits sum.splits)
  show ?case
  proof (cases r1)
    case (Inl e)
    with Cons.prems(1) p st one show ?thesis by (simp del: column_loop.simps)
  next
    case (Inr u)
    with Cons.prems(1) p st have "pair_loop E ps s1 = (r, s')" by (simp del: column_loop.simps)
    from Cons.IH [OF this k(2)] one show ?thesis by simp
  qed
qed

lemma pair_loop_entry:
  assumes "pair_loop E (before @ (t, c) # after) s = (Inr u, s')"
    and "string_nonterminal t c \<notin> (\<lambda>(t, c). string_nonterminal t c) ` set after"
  obtains rows where "execute_fetchall E (distinct_query t c) = Inr rows"
    and "map_of (grammar_dictionary s') (string_nonterminal t c) = Some (column_strings c rows)"
proof -
  obtain r1 s1 where b: "pair_loop E before s = (r1, s1)" by (cases "pair_loop E before s")
  with assms(1) have rest: "pair_loop E ((t, c) # after) s1 = (Inr u, s')"
    unfolding pair_loop_append by (cases r1) simp_all
  obtain r2 s2 where st: "column_loop E t [c] s1 = (r2, s2)" by (cases "column_loop E t [c] s1")
  with rest have st': "column_loop E t [c] s1 = (Inr (), s2)"
    and after: "pair_loop E after s2 = (Inr u, s')"
    by (cases r2; simp del: column_loop.simps)+
  from st' obtain rows where rows: "execute_fetchall E (distinct_query t c) = Inr rows"
    and d: "grammar_dictionary s2 =
           AList.update (string_nonterminal t c) (column_strings c rows) (grammar_dictionary s1)"
    by (rule single_column_stored)
  have "map_of (grammar_dictionary s') (string_nonterminal t c) =
        map_of (grammar_dictionary s2) (string_nonterminal t c)"
    using pair_loop_other_keys [OF after assms(2)] .
  with d have "map_of (grammar_dictionary s') (string_nonterminal t c)
               = Some (column_strings c rows)"
    by (simp add: update_conv')
  with rows show thesis by (rule that)
qed

lemma initialize_grammar_str_entry:
  assumes "initialize_grammar_str E a t s = (Inr gtext, s')" and t: "t = Some tws"
    and "constrained_pairs tws = before @ (table, column) # after"
    and "string_nonterminal table column \<notin> (\<lambda>(t, c). string_nonterminal t c) ` set after"
  obtains rows where "execute_fetchall E (distinct_query table column) = Inr rows"
    and "map_of (grammar_dictionary s') (string_nonterminal table column)
         = Some (column_strings column rows)"
proof -
  define s1 where "s1 = (if truthy a then schema_entries (the a) s else s)"
  have ne: "tws \<noteq> []" using assms(3) by (auto simp: constrained_pairs_def)
  obtain r2 s2 where loop: "table_loop E (the t) [] s1 = (r2, s2)"
    by (cases "table_loop E (the t) [] s1")
  from assms(1) loop t ne obtain b where r2: "r2 = Inr b"
    and d: "grammar_dictionary s' =
              AList.update ''biexpr'' (sorted_reverse b @ fallback_biexprs) (grammar_dictionary s2)"
    unfolding initialize_grammar_str_def s1_def [symmetric]
    by (cases r2) (auto simp: Let_def truthy_def)
  from loop r2 t have "pair_loop E (before @ (table, column) # after) s1 = (Inr (), s2)"
    unfolding table_loop_pairs assms(3) [symmetric]
    by (auto split: prod.splits sum.splits)
  then obtain rows where rows: "execute_fetchall E (distinct_query table column) = Inr rows"
    and e: "map_of (grammar_dictionary s2) (string_nonterminal table column)
            = Some (column_strings column rows)"
    using assms(4) by (rule pair_loop_entry)
  from d e string_nonterminal_neq(3) [of table column]
  have "map_of (grammar_dictionary s') (string_nonterminal table column)
        = Some (column_strings column rows)"
    by (simp add: update_conv')
  with rows show thesis by (rule that)
qed


lemma column_strings_descending: "sorted (rev (column_strings column rows))"
  by (simp add: column_strings_def sorted_reverse_def)

lemma sort_mset_cong:
  fixes xs ys :: "string list"
  assumes "mset xs = mset ys"
  shows "sort xs = sort ys"
  by (rule properties_for_sort) (simp_all add: assms)

lemma column_strings_order_irrelevant:
  assumes "mset rows1 = mset rows2"
  shows "column_strings column rows1 = column_strings column rows2"
proof -
  have "mset (map f rows1) = mset (map f rows2)" for f :: "sql_value \<Rightarrow> string"
    using assms by (metis mset_map)
  then show ?thesis
    by (simp add: column_strings_def sorted_reverse_def sort_mset_cong)
qed




lemma ca_tx_strings:
  \<open>column_strings ''state'' [Text ''CA'', Text ''TX''] =
     [''"'' @ [CHR 0x27] @ ''TX'' @ [CHR 0x27] @ ''"'',
      ''"'' @ [CHR 0x27] @ ''CA'' @ [CHR 0x27] @ ''"'']\<close>
  by code_simp

text \<open>
  C7. With the constraint \<open>{"city": ["state"]}\<close> and a \<open>city.state\<close> column holding
  \<open>CA, TX, CA\<close> (so that the distinct-value query answers with \<open>CA\<close> and \<open>TX\<close> once
  each, in some order), the dictionary gets the nonterminal \<open>city_state_string\<close> with
  exactly the two alternatives \<open>"'TX'"\<close> and \<open>"'CA'"\<close>, in this order.
\<close>

theorem city_state_string_example:
  assumes \<open>execute_fetchall E ''SELECT DISTINCT city . state FROM city'' = Inr rows\<close>
    and "distinct rows"
    and \<open>set rows = set [Text ''CA'', Text ''TX'', Text ''CA'']\<close>
    and \<open>AtisSqlTableContext_init E all_tables (Some [(''city'', [''state''])]) database_file
           = (Inr obj, s)\<close>
  shows \<open>map_of (get_grammar_dictionary obj) ''city_state_string'' =
           Some [''"'' @ [CHR 0x27] @ ''TX'' @ [CHR 0x27] @ ''"'',
                 ''"'' @ [CHR 0x27] @ ''CA'' @ [CHR 0x27] @ ''"'']\<close>
proof -
  from assms(4) obtain s1 gtext s2 where
    i: "initialize_grammar_str E all_tables (Some [(''city'', [''state''])]) s1 = (Inr gtext, s2)"
    and d: "get_grammar_dictionary obj = grammar_dictionary s2"
    by (rule init_success)
  have p: "constrained_pairs [(''city'', [''state''])] = [] @ (''city'', ''state'') # []"
    by (simp add: constrained_pairs_def)
  from i refl p obtain rows' where
    rows': "execute_fetchall E (distinct_query ''city'' ''state'') = Inr rows'"
    and e: "map_of (grammar_dictionary s2) (string_nonterminal ''city'' ''state'')
            = Some (column_strings ''state'' rows')"
    by (rule initialize_grammar_str_entry) simp
  from rows' assms(1) have "rows' = rows" by (simp add: distinct_query_def)
  moreover have "mset rows = mset [Text ''CA'', Text ''TX'']"
    using assms(2,3) by (subst set_eq_iff_mset_eq_distinct [symmetric]) auto
  ultimately have "column_strings ''state'' rows' = column_strings ''state'' [Text ''CA'', Text ''TX'']"
    by (intro column_strings_order_irrelevant) simp
  with e ca_tx_strings show ?thesis
    by (simp add: d string_nonterminal_def)
qed

theorem city_state_string_example_witness:
  \<open>map_of (get_grammar_dictionary (projr (fst
      (AtisSqlTableContext_init (example_env (city_state_db [Text ''CA'', Text ''TX'']))
         (Some city_schema) (Some [(''city'', [''state''])]) (Some ''atis.db'')))))
     ''city_state_string'' =
   Some [''"'' @ [CHR 0x27] @ ''TX'' @ [CHR 0x27] @ ''"'',
         ''"'' @ [CHR 0x27] @ ''CA'' @ [CHR 0x27] @ ''"'']\<close>
proof -
  let ?E = "example_env (city_state_db [Text ''CA'', Text ''TX''])"
  let ?R = "AtisSqlTableContext_init ?E (Some city_schema) (Some [(''city'', [''state''])])
              (Some ''atis.db'')"
  obtain r s where rs: "?R = (r, s)" by (cases ?R)
  have "\<not> isl (fst ?R)" by (rule example_env_constructs; code_simp)
  with rs obtain obj where "r = Inr obj" by (cases r) auto
  with rs have R: "?R = (Inr obj, s)" by simp
  have h1: "execute_fetchall ?E ''SELECT DISTINCT city . state FROM city''
            = Inr [Text ''CA'', Text ''TX'']"
    by (simp add: example_env_def city_state_db_def)
  have h2: "distinct [Text ''CA'', Text ''TX'']" by simp
  have h3: "set [Text ''CA'', Text ''TX''] = set [Text ''CA'', Text ''TX'', Text ''CA'']"
    by auto
  from city_state_string_example [OF h1 h2 h3 R] show ?thesis
    by (simp only: R fst_conv sum.sel)
qed

lemma column_loop_same:
  assumes "\<And>q. rel_sum (=) (\<lambda>rows1 rows2. mset rows1 = mset rows2)
                  (execute_fetchall E1 q) (execute_fetchall E2 q)"
  shows "column_loop E1 t cs s = column_loop E2 t cs s"
proof (induction cs arbitrary: s)
  case Nil
  show ?case by simp
next
  case (Cons c cs)
  show ?case
  proof (cases "execute_fetchall E1 (distinct_query t c)")
    case (Inl e1)
    with assms [of "distinct_query t c"] have "execute_fetchall E2 (distinct_query t c) = Inl e1"
      by (cases "execute_fetchall E2 (distinct_query t c)") simp_all
    with Inl show ?thesis by (simp add: Let_def)
  next
    case (Inr rows1)
    with assms [of "distinct_query t c"] obtain rows2 where
      r2: "execute_fetchall E2 (distinct_query t c) = Inr rows2" and m: "mset rows1 = mset rows2"
      by (cases "execute_fetchall E2 (distinct_query t c)") simp_all
    from m have "column_strings c rows1 = column_strings c rows2"
      by (rule column_strings_order_irrelevant)
    with Inr r2 show ?thesis by (simp add: Let_def Cons.IH)
  qed
qed

lemma table_loop_same:
  assumes "\<And>q. rel_sum (=) (\<lambda>rows1 rows2. mset rows1 = mset rows2)
                  (execute_fetchall E1 q) (execute_fetchall E2 q)"
  shows "table_loop E1 tws b s = table_loop E2 tws b s"
proof (induction tws arbitrary: b s)
  case Nil
  show ?case by simp
next
  case (Cons tc tws)
  obtain t cs where tc: "tc = (t, cs)" by (cases tc)
  show ?case
    by (simp add: tc column_loop_same [OF assms] Cons.IH split: prod.splits sum.splits)
qed

text \<open>
  C5. Two constructions from the same inputs, against data sources that answer every
  distinct-value query with the same values in any order (and with the same file
  resolution, connection behaviour and grammar engine), have the same outcome; in
  particular the same ValidActionTable.
\<close>

theorem construction_deterministic:
  assumes "cached_path E1 = cached_path E2"
    and "sqlite3_connect E1 = sqlite3_connect E2"
    and "Grammar E1 = Grammar E2"
    and "\<And>q. rel_sum (=) (\<lambda>rows1 rows2. mset rows1 = mset rows2)
                  (execute_fetchall E1 q) (execute_fetchall E2 q)"
  shows "map_sum id get_valid_actions
           (fst (AtisSqlTableContext_init E1 all_tables tables_with_strings database_file)) =
         map_sum id get_valid_actions
           (fst (AtisSqlTableContext_init E2 all_tables tables_with_strings database_file)) \<and>
         AtisSqlTableContext_init E1 all_tables tables_with_strings database_file =
         AtisSqlTableContext_init E2 all_tables tables_with_strings database_file"
proof -
  have o: "open_database E1 database_file s = open_database E2 database_file s" for s
    unfolding open_database_def assms(1) assms(2) by (rule refl)
  have i: "initialize_grammar_str E1 all_tables tables_with_strings s =
           initialize_grammar_str E2 all_tables tables_with_strings s" for s
    unfolding initialize_grammar_str_def table_loop_same [OF assms(4)] by (rule refl)
  have "AtisSqlTableContext_init E1 all_tables tables_with_strings database_file =
        AtisSqlTableContext_init E2 all_tables tables_with_strings database_file"
    unfolding AtisSqlTableContext_init_def o i assms(3) by (rule refl)
  then show ?thesis by simp
qed

theorem construction_deterministic_witness:
  "map_sum id get_valid_actions
     (fst (AtisSqlTableContext_init (example_env (city_state_db [Text ''CA'', Text ''TX'']))
             (Some city_schema) (Some [(''city'', [''state''])]) (Some ''atis.db''))) =
   map_sum id get_valid_actions
     (fst (AtisSqlTableContext_init (example_env (city_state_db [Text ''TX'', Text ''CA'']))
             (Some city_schema) (Some [(''city'', [''state''])]) (Some ''atis.db'')))"
proof -
  let ?E1 = "example_env (city_state_db [Text ''CA'', Text ''TX''])"
  let ?E2 = "example_env (city_state_db [Text ''TX'', Text ''CA''])"
  have h1: "cached_path ?E1 = cached_path ?E2" by (simp add: example_env_def)
  have h2: "sqlite3_connect ?E1 = sqlite3_connect ?E2" by (simp add: example_env_def)
  have h3: "Grammar ?E1 = Grammar ?E2" by (simp add: example_env_def)
  have h4: "rel_sum (=) (\<lambda>rows1 rows2. mset rows1 = mset rows2)
              (execute_fetchall ?E1 q) (execute_fetchall ?E2 q)" for q
    by (simp add: example_env_def city_state_db_def)
  from construction_deterministic [OF h1 h2 h3 h4] show ?thesis by (rule conjunct1)
qed

lemma upper_char_idem: "upper_char (upper_char c) = upper_char c"
proof (cases "97 \<le> (of_char c :: nat) \<and> (of_char c :: nat) \<le> 122")
  case True
  define n where "n = (of_char c :: nat)"
  from True have n: "97 \<le> n" "n \<le> 122" by (simp_all add: n_def)
  then have "(n - 32) mod 256 = n - 32" by simp
  with n have "\<not> (97 \<le> (of_char (char_of (n - 32)) :: nat) \<and>
                   (of_char (char_of (n - 32)) :: nat) \<le> 122)"
    by simp
  then have "upper_char (char_of (n - 32)) = char_of (n - 32)"
    by (simp only: upper_char_def if_False)
  moreover from True have "upper_char c = char_of (n - 32)"
    unfolding upper_char_def n_def by (rule if_P)
  ultimately show ?thesis by simp
next
  case False
  then have "upper_char c = c" unfolding upper_char_def by (rule if_not_P)
  then show ?thesis by simp
qed

lemma upper_idem: "upper (upper s) = upper s"
  by (simp add: upper_def upper_char_idem)

lemma canonical_symbol_eq_iff:
  "canonical_symbol kws a = canonical_symbol kws b \<longleftrightarrow>
     a = b \<or> (upper a = upper b \<and> upper a \<in> set kws)"
  using upper_idem [of a] upper_idem [of b]
  by (auto simp: canonical_symbol_def split: if_splits)

lemma differ_iff_case_key:
  "differ_only_in_keyword_case kws p q \<longleftrightarrow> case_key kws p = case_key kws q"
proof
  assume "differ_only_in_keyword_case kws p q"
  then have len: "length p = length q"
    and all: "list_all (\<lambda>(a, b). a = b \<or> (upper a = upper b \<and> upper a \<in> set kws)) (zip p q)"
    by (simp_all add: differ_only_in_keyword_case_def)
  from len all show "case_key kws p = case_key kws q"
    by (induction p q rule: list_induct2) (simp_all add: case_key_def canonical_symbol_eq_iff)
next
  assume eq: "case_key kws p = case_key kws q"
  then have len: "length p = length q"
    unfolding case_key_def by (rule map_eq_imp_length_eq)
  from len eq show "differ_only_in_keyword_case kws p q"
    by (induction p q rule: list_induct2)
      (simp_all add: case_key_def differ_only_in_keyword_case_def canonical_symbol_eq_iff)
qed

lemma keep_first_subset: "set (keep_first kws seen alts) \<subseteq> set alts"
  by (induction alts arbitrary: seen) auto

lemma keep_first_class:
  "filter (\<lambda>a. case_key kws a = k) (keep_first kws seen alts) =
     (if k \<in> set seen then []
      else case find (\<lambda>a. case_key kws a = k) alts of None \<Rightarrow> [] | Some r \<Rightarrow> [r])"
proof (induction alts arbitrary: seen)
  case Nil
  show ?case by simp
next
  case (Cons a alts)
  show ?case
  proof (cases "case_key kws a \<in> set seen")
    case True
    then show ?thesis by (auto simp: Cons.IH)
  next
    case False
    then show ?thesis by (auto simp: Cons.IH)
  qed
qed

lemma valid_actions_entry:
  "map_of g lhs = Some alts \<Longrightarrow>
     map_of (initialize_valid_actions g kws) lhs =
       Some (sort (map (action_string lhs) (canonical_productions kws alts)))"
  by (induction g) (auto simp: initialize_valid_actions_def)

text \<open>
  C4. In the ValidActionTable, two productions of one nonterminal that differ only in
  the letter-casing of keywords are represented by exactly one action: the rendering of
  the first production of their group in the compiled grammar. (Distinct productions
  of the nonterminal are taken to have distinct renderings.)
\<close>

theorem keyword_case_variants_collapse:
  assumes "map_of g lhs = Some alts"
    and "p \<in> set alts" and "q \<in> set alts"
    and "differ_only_in_keyword_case KEYWORDS p q"
    and "inj_on (action_string lhs) (set alts)"
  shows "\<exists>r entry.
           find (\<lambda>a. differ_only_in_keyword_case KEYWORDS a p) alts = Some r \<and>
           find (\<lambda>a. differ_only_in_keyword_case KEYWORDS a q) alts = Some r \<and>
           map_of (initialize_valid_actions g KEYWORDS) lhs = Some entry \<and>
           filter (\<lambda>a. a \<in> action_string lhs `
                          {x \<in> set alts. differ_only_in_keyword_case KEYWORDS x p \<or>
                                          differ_only_in_keyword_case KEYWORDS x q}) entry
             = [action_string lhs r]"
proof -
  let ?K = "case_key KEYWORDS"
  let ?f = "action_string lhs"
  let ?canon = "canonical_productions KEYWORDS alts"
  have pq: "?K p = ?K q" using assms(4) by (simp add: differ_iff_case_key)
  have dp: "differ_only_in_keyword_case KEYWORDS a p \<longleftrightarrow> ?K a = ?K p" for a
    by (rule differ_iff_case_key)
  have dq: "differ_only_in_keyword_case KEYWORDS a q \<longleftrightarrow> ?K a = ?K p" for a
    by (simp add: differ_iff_case_key pq)
  from assms(2) obtain r where r: "find (\<lambda>a. ?K a = ?K p) alts = Some r"
    by (cases "find (\<lambda>a. ?K a = ?K p) alts") (auto simp: find_None_iff)
  have canon: "filter (\<lambda>a. ?K a = ?K p) ?canon = [r]"
    by (simp add: canonical_productions_def keep_first_class r)
  let ?P = "\<lambda>a. a \<in> ?f ` {x \<in> set alts. ?K x = ?K p}"
  have "filter (?P \<circ> ?f) ?canon = filter (\<lambda>a. ?K a = ?K p) ?canon"
  proof (rule filter_cong [OF refl])
    fix x assume "x \<in> set ?canon"
    then have x: "x \<in> set alts"
      using keep_first_subset by (auto simp: canonical_productions_def)
    show "(?P \<circ> ?f) x = (?K x = ?K p)"
      using x assms(5) by (auto simp: inj_on_def)
  qed
  with canon have "filter ?P (sort (map ?f ?canon)) = [?f r]"
    by (simp add: filter_sort filter_map)
  with valid_actions_entry [OF assms(1), of KEYWORDS] r show ?thesis
    by (simp add: dp dq)
qed

theorem keyword_case_variants_collapse_witness:
  \<open>\<exists>entry.
     map_of (initialize_valid_actions
               [(''value'', [[''"not"'', ''pos_value''], [''"NOT"'', ''pos_value''], [''pos_value'']])]
               KEYWORDS) ''value'' = Some entry \<and>
     filter (\<lambda>a. a \<in> action_string ''value'' `
                  {x \<in> set [[''"not"'', ''pos_value''], [''"NOT"'', ''pos_value''], [''pos_value'']].
                     differ_only_in_keyword_case KEYWORDS x [''"not"'', ''pos_value''] \<or>
                     differ_only_in_keyword_case KEYWORDS x [''"NOT"'', ''pos_value'']}) entry
       = [''value -> "not" pos_value'']\<close>
proof -
  let ?alts = \<open>[[''"not"'', ''pos_value''], [''"NOT"'', ''pos_value''], [''pos_value'']]\<close>
  let ?g = "[(''value'', ?alts)]"
  have h1: "map_of ?g ''value'' = Some ?alts" by simp
  have h2: \<open>[''"not"'', ''pos_value''] \<in> set ?alts\<close> by simp
  have h3: \<open>[''"NOT"'', ''pos_value''] \<in> set ?alts\<close> by simp
  have h4: \<open>differ_only_in_keyword_case KEYWORDS [''"not"'', ''pos_value''] [''"NOT"'', ''pos_value'']\<close>
    by code_simp
  have h5: "inj_on (action_string ''value'') (set ?alts)"
    by (simp add: action_string_def)
  have f: \<open>find (\<lambda>a. differ_only_in_keyword_case KEYWORDS a [''"not"'', ''pos_value'']) ?alts
           = Some [''"not"'', ''pos_value'']\<close>
    by code_simp
  have a: \<open>action_string ''value'' [''"not"'', ''pos_value''] = ''value -> "not" pos_value''\<close>
    by (simp add: action_string_def)
  from keyword_case_variants_collapse [OF h1 h2 h3 h4 h5] f a show ?thesis
    by auto
qed

end
